theory Spec2Isabelle
  imports Complex_Main
begin

section \<open>Common conventions\<close>

text \<open>
  The three components of \<^verbatim>\<open>app/core\<close> are embedded as state-passing functions.
  Every reading of the wall clock (\<^verbatim>\<open>time.time()\<close>) is an explicit argument of the
  operation that performs it.  Python's floats are idealised as real numbers.
  A Python exception is a value of \<open>py_error\<close>; an operation that can raise returns
  the exception next to the state it leaves behind.
\<close>

datatype py_error =
    KeyError
  | ZeroDivisionError
  | QueueFull
  | InvalidStateError
  | CancelledError
  | WorkError string

section \<open>\<^verbatim>\<open>cache.py\<close>: TTLCache\<close>

subsection \<open>The ordered dictionary\<close>

text \<open>
  \<^verbatim>\<open>collections.OrderedDict\<close> is an association list, oldest entry first.
  \<^verbatim>\<open>key in d\<close> and \<^verbatim>\<open>d[key]\<close> are \<open>map_of\<close>; \<^verbatim>\<open>del d[key]\<close> is \<open>od_delete\<close>;
  \<^verbatim>\<open>d.move_to_end(key)\<close> removes the pair and appends it; \<^verbatim>\<open>d[key] = e\<close> overwrites
  in place when the key is present and appends otherwise; \<^verbatim>\<open>d.popitem(last=False)\<close>
  removes the head and raises \<^verbatim>\<open>KeyError\<close> on an empty dictionary.
\<close>

type_synonym ('k, 'e) ordered_dict = "('k \<times> 'e) list"

definition od_delete :: "'k \<Rightarrow> ('k, 'e) ordered_dict \<Rightarrow> ('k, 'e) ordered_dict" where
  "od_delete k d = filter (\<lambda>p. fst p \<noteq> k) d"

definition od_move_to_end :: "'k \<Rightarrow> 'e \<Rightarrow> ('k, 'e) ordered_dict \<Rightarrow> ('k, 'e) ordered_dict" where
  "od_move_to_end k e d = od_delete k d @ [(k, e)]"

fun od_setitem :: "'k \<Rightarrow> 'e \<Rightarrow> ('k, 'e) ordered_dict \<Rightarrow> ('k, 'e) ordered_dict" where
  "od_setitem k e [] = [(k, e)]"
| "od_setitem k e (p # ps) = (if fst p = k then (k, e) # ps else p # od_setitem k e ps)"

subsection \<open>The cache\<close>

record 'v cache_entry =
  entry_value :: 'v
  timestamp :: real

record 'v TTLCache =
  cache :: "(string, 'v cache_entry) ordered_dict"
  max_size :: int
  ttl_seconds :: int
  hits :: nat
  misses :: nat

definition TTLCache_init :: "int \<Rightarrow> int \<Rightarrow> 'v TTLCache" where
  "TTLCache_init m t = \<lparr>cache = [], max_size = m, ttl_seconds = t, hits = 0, misses = 0\<rparr>"

text \<open>The TTL test of \<^verbatim>\<open>get\<close> and \<^verbatim>\<open>cleanup_expired\<close>:
  \<^verbatim>\<open>now - entry["timestamp"] > self._ttl_seconds\<close>.\<close>

definition expired :: "'v TTLCache \<Rightarrow> real \<Rightarrow> 'v cache_entry \<Rightarrow> bool" where
  "expired c now e = (now - timestamp e > real_of_int (ttl_seconds c))"

definition TTLCache_get :: "'v TTLCache \<Rightarrow> string \<Rightarrow> real \<Rightarrow> 'v option \<times> 'v TTLCache" where
  "TTLCache_get c key now =
     (case map_of (cache c) key of
        None \<Rightarrow> (None, c\<lparr>misses := misses c + 1\<rparr>)
      | Some entry \<Rightarrow>
          if expired c now entry
          then (None, c\<lparr>cache := od_delete key (cache c), misses := misses c + 1\<rparr>)
          else (Some (entry_value entry),
                c\<lparr>cache := od_move_to_end key entry (cache c), hits := hits c + 1\<rparr>))"

text \<open>
  The eviction loop of \<^verbatim>\<open>set\<close>:
  \<^verbatim>\<open>while len(self._cache) >= self._max_size: self._cache.popitem(last=False)\<close>.
  It returns the exception raised, if any, and the dictionary it leaves.
\<close>

fun evict_loop :: "int \<Rightarrow> ('k, 'e) ordered_dict \<Rightarrow> py_error option \<times> ('k, 'e) ordered_dict" where
  "evict_loop m [] = (if 0 \<ge> m then (Some KeyError, []) else (None, []))"
| "evict_loop m (p # ps) =
     (if int (length (p # ps)) \<ge> m then evict_loop m ps else (None, p # ps))"

definition TTLCache_set ::
  "'v TTLCache \<Rightarrow> string \<Rightarrow> 'v \<Rightarrow> real \<Rightarrow> py_error option \<times> 'v TTLCache" where
  "TTLCache_set c key v now =
     (case evict_loop (max_size c) (cache c) of
        (Some err, d) \<Rightarrow> (Some err, c\<lparr>cache := d\<rparr>)
      | (None, d) \<Rightarrow>
          (None, c\<lparr>cache := od_setitem key \<lparr>entry_value = v, timestamp = now\<rparr> d\<rparr>))"

definition TTLCache_invalidate :: "'v TTLCache \<Rightarrow> string \<Rightarrow> bool \<times> 'v TTLCache" where
  "TTLCache_invalidate c key =
     (if map_of (cache c) key \<noteq> None
      then (True, c\<lparr>cache := od_delete key (cache c)\<rparr>)
      else (False, c))"

definition TTLCache_clear :: "'v TTLCache \<Rightarrow> 'v TTLCache" where
  "TTLCache_clear c = c\<lparr>cache := []\<rparr>"

definition TTLCache_cleanup_expired :: "'v TTLCache \<Rightarrow> real \<Rightarrow> nat \<times> 'v TTLCache" where
  "TTLCache_cleanup_expired c now =
     (let expired_keys = map fst (filter (\<lambda>p. expired c now (snd p)) (cache c))
      in (length expired_keys, c\<lparr>cache := fold od_delete expired_keys (cache c)\<rparr>))"

subsection \<open>Sequences of cache operations\<close>

text \<open>
  A caller's sequence of calls, each with the clock reading it meets.  A sequence stops
  at the first call that raises.
\<close>

datatype 'v cache_op =
    Get string real
  | Set string 'v real
  | Invalidate string
  | Clear
  | CleanupExpired real

fun apply_cache_op :: "'v TTLCache \<Rightarrow> 'v cache_op \<Rightarrow> py_error option \<times> 'v TTLCache" where
  "apply_cache_op c (Get key now) = (None, snd (TTLCache_get c key now))"
| "apply_cache_op c (Set key v now) = TTLCache_set c key v now"
| "apply_cache_op c (Invalidate key) = (None, snd (TTLCache_invalidate c key))"
| "apply_cache_op c Clear = (None, TTLCache_clear c)"
| "apply_cache_op c (CleanupExpired now) = (None, snd (TTLCache_cleanup_expired c now))"

fun run_cache_ops :: "'v TTLCache \<Rightarrow> 'v cache_op list \<Rightarrow> py_error option \<times> 'v TTLCache" where
  "run_cache_ops c [] = (None, c)"
| "run_cache_ops c (x # xs) =
     (case apply_cache_op c x of
        (None, c') \<Rightarrow> run_cache_ops c' xs
      | (Some err, c') \<Rightarrow> (Some err, c'))"

text \<open>Inserting a list of keys with their values and clock readings, in order.\<close>

definition set_all :: "'v TTLCache \<Rightarrow> (string \<times> 'v \<times> real) list \<Rightarrow> py_error option \<times> 'v TTLCache" where
  "set_all c kvs = run_cache_ops c (map (\<lambda>(k, v, t). Set k v t) kvs)"

text \<open>The entry \<^verbatim>\<open>set\<close> stores for a key, value and clock reading.\<close>

definition stored :: "string \<times> 'v \<times> real \<Rightarrow> string \<times> 'v cache_entry" where
  "stored kvt = (case kvt of (k, v, t) \<Rightarrow> (k, \<lparr>entry_value = v, timestamp = t\<rparr>))"

text \<open>
  The representation invariant of the cache: the size bound, and keys that are pairwise
  different, so that the length of the list is the number of stored entries.
\<close>

definition cache_inv :: "'v TTLCache \<Rightarrow> bool" where
  "cache_inv c = (int (length (cache c)) \<le> max_size c \<and> distinct (map fst (cache c)))"

section \<open>\<^verbatim>\<open>rate_limiter.py\<close>: RateLimiter\<close>

text \<open>
  A bucket is the dictionary \<^verbatim>\<open>{"tokens": ..., "last_refill": ...}\<close>.  The map
  \<open>buckets\<close> is the \<^verbatim>\<open>defaultdict\<close>: reading a missing key creates the bucket
  \<^verbatim>\<open>{"tokens": max_tokens, "last_refill": time.time()}\<close> and stores it.  The bucket
  object is shared with the map in the source, so every change of a bucket is written
  back into the map.  The client key is what \<^verbatim>\<open>_get_client_key\<close> extracts from the
  request; the operations take it directly.
\<close>

record bucket =
  tokens :: real
  last_refill :: real

record RateLimiter =
  max_tokens :: int
  refill_rate :: real
  window_seconds :: int
  buckets :: "string \<rightharpoonup> bucket"

definition RateLimiter_init :: "int \<Rightarrow> real \<Rightarrow> int \<Rightarrow> RateLimiter" where
  "RateLimiter_init m r w =
     \<lparr>max_tokens = m, refill_rate = r, window_seconds = w, buckets = Map.empty\<rparr>"

text \<open>\<^verbatim>\<open>self._buckets[client_key]\<close>; \<open>t0\<close> is the clock reading of the default factory.\<close>

definition get_bucket :: "RateLimiter \<Rightarrow> string \<Rightarrow> real \<Rightarrow> bucket \<times> RateLimiter" where
  "get_bucket rl client_key t0 =
     (case buckets rl client_key of
        Some b \<Rightarrow> (b, rl)
      | None \<Rightarrow>
          (let b = \<lparr>tokens = real_of_int (max_tokens rl), last_refill = t0\<rparr>
           in (b, rl\<lparr>buckets := (buckets rl)(client_key \<mapsto> b)\<rparr>)))"

definition RateLimiter_refill :: "RateLimiter \<Rightarrow> bucket \<Rightarrow> real \<Rightarrow> bucket" where
  "RateLimiter_refill rl b now =
     (let elapsed = now - last_refill b;
          new_tokens = elapsed * refill_rate rl
      in b\<lparr>tokens := min (real_of_int (max_tokens rl)) (tokens b + new_tokens),
            last_refill := now\<rparr>)"

definition RateLimiter_check ::
  "RateLimiter \<Rightarrow> string \<Rightarrow> int \<Rightarrow> real \<Rightarrow> real \<Rightarrow> bool \<times> RateLimiter" where
  "RateLimiter_check rl client_key cost t0 now =
     (let (b, rl1) = get_bucket rl client_key t0;
          b1 = RateLimiter_refill rl1 b now
      in if tokens b1 \<ge> real_of_int cost
         then (True, rl1\<lparr>buckets :=
                 (buckets rl1)(client_key \<mapsto> b1\<lparr>tokens := tokens b1 - real_of_int cost\<rparr>)\<rparr>)
         else (False, rl1\<lparr>buckets := (buckets rl1)(client_key \<mapsto> b1)\<rparr>))"

text \<open>
  \<^verbatim>\<open>get_retry_after\<close> reads the bucket and divides; Python's \<^verbatim>\<open>/\<close> raises
  \<^verbatim>\<open>ZeroDivisionError\<close> on a zero divisor, for integers and floats alike.
\<close>

definition RateLimiter_get_retry_after ::
  "RateLimiter \<Rightarrow> string \<Rightarrow> int \<Rightarrow> real \<Rightarrow> (py_error + real) \<times> RateLimiter" where
  "RateLimiter_get_retry_after rl client_key cost t0 =
     (let (b, rl1) = get_bucket rl client_key t0;
          needed = real_of_int cost - tokens b
      in if needed \<le> 0 then (Inr 0, rl1)
         else if refill_rate rl1 = 0 then (Inl ZeroDivisionError, rl1)
         else (Inr (needed / refill_rate rl1), rl1))"

definition RateLimiter_get_remaining ::
  "RateLimiter \<Rightarrow> string \<Rightarrow> real \<Rightarrow> real \<Rightarrow> int \<times> RateLimiter" where
  "RateLimiter_get_remaining rl client_key t0 now =
     (let (b, rl1) = get_bucket rl client_key t0;
          b1 = RateLimiter_refill rl1 b now
      in (if tokens b1 \<ge> 0 then \<lfloor>tokens b1\<rfloor> else \<lceil>tokens b1\<rceil>,
          rl1\<lparr>buckets := (buckets rl1)(client_key \<mapsto> b1)\<rparr>))"

text \<open>
  The value the specification describes for \<^verbatim>\<open>get_retry_after\<close>, written from its
  words: refill first, then \<open>max 0 ((cost - tokens) / refill_rate)\<close> on the refilled
  count.  It is compared with the source's function below.
\<close>

definition spec_retry_after :: "RateLimiter \<Rightarrow> bucket \<Rightarrow> int \<Rightarrow> real \<Rightarrow> real" where
  "spec_retry_after rl b cost now =
     max 0 ((real_of_int cost - tokens (RateLimiter_refill rl b now)) / refill_rate rl)"

section \<open>\<^verbatim>\<open>queue.py\<close>: InferenceQueue\<close>

subsection \<open>Futures\<close>

text \<open>
  An \<^verbatim>\<open>asyncio.Future\<close> is shared by the submitter and the worker, so futures live in
  a store indexed by address.  \<^verbatim>\<open>set_result\<close> and \<^verbatim>\<open>set_exception\<close> raise
  \<^verbatim>\<open>InvalidStateError\<close> on a future that is already done; a cancelled future is done.
\<close>

datatype 'a future_state =
    Pending
  | Result 'a
  | Exception py_error
  | Cancelled

record 'a event_loop =
  futures :: "nat \<Rightarrow> 'a future_state"
  next_future :: nat

definition create_future :: "'a event_loop \<Rightarrow> nat \<times> 'a event_loop" where
  "create_future lp =
     (next_future lp,
      lp\<lparr>futures := (futures lp)(next_future lp := Pending),
         next_future := next_future lp + 1\<rparr>)"

definition future_done :: "'a event_loop \<Rightarrow> nat \<Rightarrow> bool" where
  "future_done lp a = (futures lp a \<noteq> Pending)"

definition set_result :: "'a event_loop \<Rightarrow> nat \<Rightarrow> 'a \<Rightarrow> py_error option \<times> 'a event_loop" where
  "set_result lp a v =
     (if future_done lp a then (Some InvalidStateError, lp)
      else (None, lp\<lparr>futures := (futures lp)(a := Result v)\<rparr>))"

definition set_exception ::
  "'a event_loop \<Rightarrow> nat \<Rightarrow> py_error \<Rightarrow> py_error option \<times> 'a event_loop" where
  "set_exception lp a e =
     (if future_done lp a then (Some InvalidStateError, lp)
      else (None, lp\<lparr>futures := (futures lp)(a := Exception e)\<rparr>))"


subsection \<open>The bounded queue of the standard library\<close>

text \<open>
  \<^verbatim>\<open>asyncio.Queue(maxsize)\<close> as documented: a FIFO whose size is unbounded when
  \<^verbatim>\<open>maxsize <= 0\<close>; \<^verbatim>\<open>put_nowait\<close> raises \<^verbatim>\<open>QueueFull\<close> when the queue is full and
  appends otherwise.
\<close>

record 'i asyncio_Queue =
  maxsize :: int
  items :: "'i list"

definition qsize :: "'i asyncio_Queue \<Rightarrow> nat" where
  "qsize aq = length (items aq)"

definition full :: "'i asyncio_Queue \<Rightarrow> bool" where
  "full aq = (if maxsize aq \<le> 0 then False else int (qsize aq) \<ge> maxsize aq)"

definition put_nowait :: "'i asyncio_Queue \<Rightarrow> 'i \<Rightarrow> py_error + 'i asyncio_Queue" where
  "put_nowait aq x = (if full aq then Inl QueueFull else Inr (aq\<lparr>items := items aq @ [x]\<rparr>))"

subsection \<open>Items, work and the queue\<close>

text \<open>
  Awaiting \<^verbatim>\<open>item.coroutine_factory()\<close> ends in one of three ways: it returns a value,
  it raises an exception that \<^verbatim>\<open>except Exception\<close> catches, or it raises one that
  derives from \<^verbatim>\<open>BaseException\<close> only (a cancellation), which the clause lets through.
\<close>

datatype 'a outcome =
    Returns 'a
  | Raises py_error
  | RaisesBase py_error

record 'a QueueItem =
  item_id :: string
  coroutine_factory :: "unit \<Rightarrow> 'a outcome"
  future :: nat

record 'a InferenceQueue =
  queue :: "'a QueueItem asyncio_Queue"
  max_concurrent :: int
  max_queue_size :: int
  active_tasks :: int
  total_processed :: nat
  total_errors :: nat
  running :: bool

definition InferenceQueue_init :: "int \<Rightarrow> int \<Rightarrow> 'a InferenceQueue" where
  "InferenceQueue_init mc mq =
     \<lparr>queue = \<lparr>maxsize = mq, items = []\<rparr>, max_concurrent = mc, max_queue_size = mq,
      active_tasks = 0, total_processed = 0, total_errors = 0, running = False\<rparr>"

definition InferenceQueue_start :: "'a InferenceQueue \<Rightarrow> 'a InferenceQueue" where
  "InferenceQueue_start q = (if running q then q else q\<lparr>running := True\<rparr>)"

text \<open>
  \<^verbatim>\<open>submit\<close> up to its \<^verbatim>\<open>await\<close>: no suspension point precedes it, so this part runs
  in one piece.  \<open>Inl QueueFull\<close> is the exception re-raised to the caller; \<open>Inr a\<close> is
  the address of the future the caller then awaits.
\<close>

definition InferenceQueue_submit ::
  "'a event_loop \<Rightarrow> 'a InferenceQueue \<Rightarrow> string \<Rightarrow> (unit \<Rightarrow> 'a outcome) \<Rightarrow>
     (py_error + nat) \<times> 'a event_loop \<times> 'a InferenceQueue" where
  "InferenceQueue_submit lp q task_id cf =
     (let (fut, lp1) = create_future lp;
          item = \<lparr>item_id = task_id, coroutine_factory = cf, future = fut\<rparr>
      in case put_nowait (queue q) item of
           Inl err \<Rightarrow> (Inl err, lp1, q)
         | Inr aq \<Rightarrow> (Inr fut, lp1, q\<lparr>queue := aq\<rparr>))"

text \<open>
  The body of the worker loop once \<^verbatim>\<open>get\<close> has delivered \<open>item\<close>: the counter
  \<^verbatim>\<open>_active_tasks\<close> goes up, the work runs, the \<^verbatim>\<open>try\<close> statement resolves the future,
  and \<^verbatim>\<open>finally\<close> takes the counter down again.  The first component is the exception
  that leaves the \<^verbatim>\<open>try\<close> statement, if any.  (\<^verbatim>\<open>task_done\<close> only maintains the counter
  behind \<^verbatim>\<open>join\<close>, which the program never calls.)
\<close>

definition process_item ::
  "'a event_loop \<Rightarrow> 'a InferenceQueue \<Rightarrow> 'a QueueItem \<Rightarrow>
     py_error option \<times> 'a event_loop \<times> 'a InferenceQueue" where
  "process_item lp q item =
     (let q1 = q\<lparr>active_tasks := active_tasks q + 1\<rparr>;
          handler = (\<lambda>lp2 q2 e.
             (let q3 = q2\<lparr>total_errors := total_errors q2 + 1\<rparr>;
                  lp3 = (if \<not> future_done lp2 (future item)
                         then snd (set_exception lp2 (future item) e) else lp2)
              in (None, lp3, q3)));
          (exc, lp4, q4) =
            (case coroutine_factory item () of
               Returns result \<Rightarrow>
                 (case set_result lp (future item) result of
                    (None, lp2) \<Rightarrow> (None, lp2, q1\<lparr>total_processed := total_processed q1 + 1\<rparr>)
                  | (Some e, lp2) \<Rightarrow> handler lp2 q1 e)
             | Raises e \<Rightarrow> handler lp q1 e
             | RaisesBase e \<Rightarrow> (Some e, lp, q1))
      in (exc, lp4, q4\<lparr>active_tasks := active_tasks q4 - 1\<rparr>))"

text \<open>
  One pass of \<^verbatim>\<open>while self._running\<close>.  The worker leaves the loop when the flag is
  down (\<open>Some None\<close>) or an exception escapes the body (\<open>Some (Some e)\<close>); it stays in
  the loop otherwise (\<open>None\<close>).  With an empty queue \<^verbatim>\<open>wait_for\<close> times out and the loop
  continues with the state unchanged.
\<close>

definition worker_iteration ::
  "'a event_loop \<Rightarrow> 'a InferenceQueue \<Rightarrow>
     py_error option option \<times> 'a event_loop \<times> 'a InferenceQueue" where
  "worker_iteration lp q =
     (if \<not> running q then (Some None, lp, q)
      else case items (queue q) of
             [] \<Rightarrow> (None, lp, q)
           | item # rest \<Rightarrow>
               (case process_item lp (q\<lparr>queue := (queue q)\<lparr>items := rest\<rparr>\<rparr>) item of
                  (None, lp', q') \<Rightarrow> (None, lp', q')
                | (Some e, lp', q') \<Rightarrow> (Some (Some e), lp', q')))"


subsection \<open>Work items and futures for stating properties\<close>

text \<open>A unit of work that returns \<open>v\<close>, and one that raises the exception \<open>e\<close>.\<close>

definition returning :: "'a \<Rightarrow> unit \<Rightarrow> 'a outcome" where
  "returning v u = Returns v"

definition raising :: "py_error \<Rightarrow> unit \<Rightarrow> 'a outcome" where
  "raising e u = Raises e"

text \<open>An event loop that has created no future yet.\<close>

definition new_event_loop :: "'a event_loop" where
  "new_event_loop = \<lparr>futures = (\<lambda>a. Pending), next_future = 0\<rparr>"





section \<open>Properties of the ordered dictionary and the eviction loop\<close>

lemma evict_loop_pos:
  "1 \<le> m \<Longrightarrow> evict_loop m d = (None, drop (Suc (length d) - nat m) d)"
  by (induction d) (auto simp: Suc_diff_le)

lemma evict_loop_nonpos: "m \<le> 0 \<Longrightarrow> evict_loop m d = (Some KeyError, [])"
  by (induction d) auto

lemma od_setitem_fresh: "k \<notin> fst ` set d \<Longrightarrow> od_setitem k e d = d @ [(k, e)]"
  by (induction d) auto

lemma map_of_od_setitem: "map_of (od_setitem k e d) k = Some e"
  by (induction d) auto

lemma keys_od_setitem: "fst ` set (od_setitem k e d) = insert k (fst ` set d)"
  by (induction d) auto

lemma length_od_setitem: "length (od_setitem k e d) \<le> Suc (length d)"
  by (induction d) auto

lemma distinct_od_setitem:
  "distinct (map fst d) \<Longrightarrow> distinct (map fst (od_setitem k e d))"
  by (induction d) (auto simp: keys_od_setitem)

lemma distinct_od_delete: "distinct (map fst d) \<Longrightarrow> distinct (map fst (od_delete k d))"
  by (simp add: od_delete_def distinct_map_filter)

lemma length_od_delete: "length (od_delete k d) \<le> length d"
  by (simp add: od_delete_def)

lemma od_delete_absent: "k \<notin> fst ` set d \<Longrightarrow> od_delete k d = d"
  by (induction d) (auto simp: od_delete_def)

lemma length_od_delete_present:
  "distinct (map fst d) \<Longrightarrow> map_of d k = Some e \<Longrightarrow> Suc (length (od_delete k d)) = length d"
proof (induction d)
  case Nil
  then show ?case by simp
next
  case (Cons p ps)
  show ?case
  proof (cases "fst p = k")
    case True
    with Cons.prems have "k \<notin> fst ` set ps" by auto
    then have "od_delete k ps = ps" by (rule od_delete_absent)
    with True show ?thesis by (simp add: od_delete_def)
  next
    case False
    with Cons show ?thesis by (simp add: od_delete_def)
  qed
qed

lemma map_of_od_delete: "map_of (od_delete k d) k = None"
  by (induction d) (auto simp: od_delete_def)

lemma keys_od_delete: "fst ` set (od_delete k d) = fst ` set d - {k}"
  by (auto simp: od_delete_def)


lemma set_fresh:
  assumes "1 \<le> max_size c" "k \<notin> fst ` set (cache c)"
  shows "TTLCache_set c k v t =
     (None, c\<lparr>cache := drop (Suc (length (cache c)) - nat (max_size c)) (cache c) @ [stored (k, v, t)]\<rparr>)"
proof -
  let ?d = "drop (Suc (length (cache c)) - nat (max_size c)) (cache c)"
  have "set ?d \<subseteq> set (cache c)" by (rule set_drop_subset)
  with assms(2) have "k \<notin> fst ` set ?d" by auto
  then show ?thesis
    using assms(1) by (simp add: TTLCache_set_def evict_loop_pos od_setitem_fresh stored_def)
qed

lemma set_all_fresh:
  "1 \<le> max_size c \<Longrightarrow> distinct (map fst (cache c) @ map fst kvs) \<Longrightarrow>
   int (length (cache c)) \<le> max_size c \<Longrightarrow>
   set_all c kvs =
     (None, c\<lparr>cache := drop (length (cache c) + length kvs - nat (max_size c)) (cache c @ map stored kvs)\<rparr>)"
proof (induction kvs arbitrary: c)
  case Nil
  then show ?case by (simp add: set_all_def)
next
  case (Cons x xs)
  obtain k v t where x: "x = (k, v, t)" by (cases x)
  let ?c1 = "c\<lparr>cache := drop (Suc (length (cache c)) - nat (max_size c)) (cache c) @ [stored (k, v, t)]\<rparr>"
  have fresh: "k \<notin> fst ` set (cache c)" using Cons.prems(2) x by auto
  have step: "TTLCache_set c k v t = (None, ?c1)"
    using Cons.prems(1) fresh by (rule set_fresh)
  have sub: "set (drop (Suc (length (cache c)) - nat (max_size c)) (cache c)) \<subseteq> set (cache c)"
    by (rule set_drop_subset)
  have "distinct (drop (Suc (length (cache c)) - nat (max_size c)) (map fst (cache c)))"
    using Cons.prems(2) by (intro distinct_drop) simp
  then have dd: "distinct (map fst (drop (Suc (length (cache c)) - nat (max_size c)) (cache c)))"
    by (simp add: drop_map)
  have ks: "fst ` set (drop (Suc (length (cache c)) - nat (max_size c)) (cache c)) \<subseteq> fst ` set (cache c)"
    using sub by auto
  have cx: "fst ` set (cache c) \<inter> fst ` set xs = {}" "k \<notin> fst ` set xs" "distinct (map fst xs)"
    using Cons.prems(2) x by auto
  have p1: "k \<notin> fst ` set (drop (Suc (length (cache c)) - nat (max_size c)) (cache c))"
    using ks fresh by blast
  have p2: "fst ` set (drop (Suc (length (cache c)) - nat (max_size c)) (cache c)) \<inter> fst ` set xs = {}"
    using ks cx(1) by blast
  have d1: "distinct (map fst (cache ?c1) @ map fst xs)"
    using dd p1 p2 cx(2,3) by (simp add: stored_def)
  have l1: "int (length (cache ?c1)) \<le> max_size ?c1"
    using Cons.prems(1,3) by auto
  have "set_all c (x # xs) = set_all ?c1 xs"
    using step x by (simp add: set_all_def)
  also have "\<dots> = (None, ?c1\<lparr>cache := drop (length (cache ?c1) + length xs - nat (max_size ?c1)) (cache ?c1 @ map stored xs)\<rparr>)"
    using Cons.IH[of ?c1] Cons.prems(1) d1 l1 by simp
  also have "\<dots> = (None, c\<lparr>cache := drop (length (cache c) + length (x # xs) - nat (max_size c)) (cache c @ map stored (x # xs))\<rparr>)"
  proof -
    have m1: "1 \<le> nat (max_size c)" "length (cache c) \<le> nat (max_size c)"
      using Cons.prems(1,3) by auto
    show ?thesis
    proof (cases "length (cache c) = nat (max_size c)")
      case True
      with m1 x show ?thesis by (simp add: min_def)
    next
      case False
      with m1 have "length (cache c) < nat (max_size c)" by simp
      with x show ?thesis by (simp add: min_def)
    qed
  qed
  finally show ?case .
qed

lemma length_fold_od_delete: "length (fold od_delete ks d) \<le> length d"
proof (induction ks arbitrary: d)
  case Nil
  show ?case by simp
next
  case (Cons k ks)
  have "length (fold od_delete ks (od_delete k d)) \<le> length (od_delete k d)"
    by (rule Cons.IH)
  also have "\<dots> \<le> length d" by (rule length_od_delete)
  finally show ?case by simp
qed

lemma distinct_fold_od_delete:
  "distinct (map fst d) \<Longrightarrow> distinct (map fst (fold od_delete ks d))"
  by (induction ks arbitrary: d) (simp_all add: distinct_od_delete)

lemma get_inv:
  assumes "cache_inv c"
  shows "cache_inv (snd (TTLCache_get c key now)) \<and> max_size (snd (TTLCache_get c key now)) = max_size c"
proof (cases "map_of (cache c) key")
  case None
  with assms show ?thesis by (simp add: TTLCache_get_def cache_inv_def)
next
  case (Some e)
  have l: "Suc (length (od_delete key (cache c))) = length (cache c)"
    using assms Some by (simp add: cache_inv_def length_od_delete_present)
  have d: "distinct (map fst (od_delete key (cache c)))"
    using assms by (simp add: cache_inv_def distinct_od_delete)
  have le: "length (od_delete key (cache c)) \<le> length (cache c)" by (rule length_od_delete)
  show ?thesis
    using assms Some l d le
    by (auto simp: TTLCache_get_def cache_inv_def od_move_to_end_def keys_od_delete)
qed

lemma set_inv:
  assumes "1 \<le> max_size c" "cache_inv c"
  shows "fst (TTLCache_set c key v now) = None \<and> cache_inv (snd (TTLCache_set c key v now))
         \<and> max_size (snd (TTLCache_set c key v now)) = max_size c"
proof -
  let ?d = "drop (Suc (length (cache c)) - nat (max_size c)) (cache c)"
  have ev: "evict_loop (max_size c) (cache c) = (None, ?d)"
    using assms(1) by (rule evict_loop_pos)
  have "distinct (drop (Suc (length (cache c)) - nat (max_size c)) (map fst (cache c)))"
    using assms(2) by (intro distinct_drop) (simp add: cache_inv_def)
  then have dd: "distinct (map fst ?d)" by (simp add: drop_map)
  have "length ?d < nat (max_size c)" using assms by (auto simp: cache_inv_def)
  moreover have "length (od_setitem key \<lparr>entry_value = v, timestamp = now\<rparr> ?d) \<le> Suc (length ?d)"
    by (rule length_od_setitem)
  ultimately have "int (length (od_setitem key \<lparr>entry_value = v, timestamp = now\<rparr> ?d)) \<le> max_size c"
    by linarith
  with ev dd show ?thesis
    by (simp add: TTLCache_set_def cache_inv_def distinct_od_setitem)
qed

lemma invalidate_inv:
  "cache_inv c \<Longrightarrow> cache_inv (snd (TTLCache_invalidate c key)) \<and> max_size (snd (TTLCache_invalidate c key)) = max_size c"
  using length_od_delete[of key "cache c"]
  by (auto simp: TTLCache_invalidate_def cache_inv_def distinct_od_delete)

lemma clear_inv:
  "0 \<le> max_size c \<Longrightarrow> cache_inv (TTLCache_clear c) \<and> max_size (TTLCache_clear c) = max_size c"
  by (simp add: TTLCache_clear_def cache_inv_def)

lemma cleanup_inv:
  "cache_inv c \<Longrightarrow> cache_inv (snd (TTLCache_cleanup_expired c now))
     \<and> max_size (snd (TTLCache_cleanup_expired c now)) = max_size c"
  using length_fold_od_delete[of "map fst (filter (\<lambda>p. expired c now (snd p)) (cache c))" "cache c"]
  by (auto simp: TTLCache_cleanup_expired_def cache_inv_def Let_def distinct_fold_od_delete)

lemma apply_cache_op_inv:
  assumes "1 \<le> max_size c" "cache_inv c"
  shows "fst (apply_cache_op c x) = None \<and> cache_inv (snd (apply_cache_op c x))
         \<and> max_size (snd (apply_cache_op c x)) = max_size c"
proof (cases x)
  case (Get k t)
  with get_inv[OF assms(2)] show ?thesis by simp
next
  case (Set k v t)
  with set_inv[OF assms] show ?thesis by simp
next
  case (Invalidate k)
  with invalidate_inv[OF assms(2)] show ?thesis by simp
next
  case Clear
  with clear_inv[of c] assms(1) show ?thesis by simp
next
  case (CleanupExpired t)
  with cleanup_inv[OF assms(2)] show ?thesis by simp
qed

lemma run_cache_ops_inv:
  "1 \<le> max_size c \<Longrightarrow> cache_inv c \<Longrightarrow>
   fst (run_cache_ops c xs) = None \<and> cache_inv (snd (run_cache_ops c xs))
     \<and> max_size (snd (run_cache_ops c xs)) = max_size c"
proof (induction xs arbitrary: c)
  case Nil
  then show ?case by simp
next
  case (Cons x xs)
  obtain c' where a: "apply_cache_op c x = (None, c')"
    using apply_cache_op_inv[OF Cons.prems, of x] by (cases "apply_cache_op c x") auto
  with apply_cache_op_inv[OF Cons.prems, of x] have "cache_inv c'" "max_size c' = max_size c"
    by simp_all
  with Cons.IH[of c'] Cons.prems(1) a show ?case by simp
qed

section \<open>Properties of TTLCache\<close>

lemma fst_stored: "fst (stored x) = fst x"
  by (cases x) (simp add: stored_def)

lemma keys_stored: "map fst (map stored kvs) = map fst kvs"
  by (induction kvs) (simp_all add: fst_stored)

lemma map_of_stored:
  assumes "distinct (map fst kvs)" and "(k, v, t) \<in> set kvs"
  shows "map_of (map stored kvs) k = Some \<lparr>entry_value = v, timestamp = t\<rparr>"
proof -
  have "distinct (map fst (map stored kvs))"
    using assms(1) by (simp only: keys_stored)
  moreover have "stored (k, v, t) \<in> set (map stored kvs)"
    using assms(2) by (auto intro!: imageI)
  then have "(k, \<lparr>entry_value = v, timestamp = t\<rparr>) \<in> set (map stored kvs)"
    by (simp add: stored_def)
  ultimately show ?thesis by (rule map_of_is_SomeI)
qed

lemma set_all_init:
  assumes "1 \<le> m" "distinct (map fst kvs)"
  shows "set_all (TTLCache_init m ttl) kvs =
     (None, (TTLCache_init m ttl)\<lparr>cache := drop (length kvs - nat m) (map stored kvs)\<rparr>)"
  using set_all_fresh[of "TTLCache_init m ttl" kvs] assms
  by (simp add: TTLCache_init_def)

lemma get_then_set_full:
  fixes kvs :: "(string \<times> 'v \<times> real) list"
  assumes "1 \<le> m" and "distinct (map fst kvs)"
    and h: "2 \<le> m \<and> length kvs = nat m \<and> (k, v, t) \<in> set kvs \<and> now - t \<le> real_of_int ttl
         \<and> k' \<notin> fst ` set kvs"
  shows
   "let c1 = snd (set_all (TTLCache_init m ttl) kvs);
            c2 = snd (TTLCache_get c1 k now);
            c3 = snd (TTLCache_set c2 k' v' t')
        in fst (TTLCache_get c1 k now) = Some v
           \<and> fst (TTLCache_set c2 k' v' t') = None
           \<and> cache c3 = tl (od_delete k (map stored kvs)) @ [stored (k, v, t), stored (k', v', t')]
           \<and> length (cache c3) = nat m"
proof -
  let ?d = "map stored kvs"
  let ?e = "\<lparr>entry_value = v, timestamp = t\<rparr>"
  let ?c1 = "(TTLCache_init m ttl :: 'v TTLCache)\<lparr>cache := ?d\<rparr>"
  have c1: "set_all (TTLCache_init m ttl) kvs = (None, ?c1)"
    using set_all_init[OF assms(1,2), of ttl] h by simp
  have look: "map_of ?d k = Some ?e"
    using assms(2) h by (simp add: map_of_stored)
  have dk: "distinct (map fst ?d)" using assms(2) by (simp only: keys_stored)
  have ld: "Suc (length (od_delete k ?d)) = nat m"
    using length_od_delete_present[OF dk look] h by simp
  let ?c2 = "?c1\<lparr>cache := od_delete k ?d @ [(k, ?e)], hits := 1\<rparr>"
  have g: "TTLCache_get ?c1 k now = (Some v, ?c2)"
    using look h by (simp add: TTLCache_get_def expired_def TTLCache_init_def od_move_to_end_def)
  have "fst ` set (od_delete k ?d) \<subseteq> fst ` set ?d" by (auto simp: od_delete_def)
  also have "fst ` set ?d = fst ` set kvs"
    using keys_stored[of kvs] by (metis list.set_map)
  finally have sub: "fst ` set (od_delete k ?d) \<subseteq> fst ` set kvs" .
  have "fst (k, v, t) \<in> fst ` set kvs" using h by (intro imageI) simp
  then have kin: "k \<in> fst ` set kvs" by simp
  with h have "k' \<noteq> k" by blast
  moreover have "k' \<notin> fst ` set (od_delete k ?d)" using sub h by blast
  ultimately have fresh: "k' \<notin> fst ` set (cache ?c2)"
    by (simp add: TTLCache_init_def)
  have ne: "od_delete k ?d \<noteq> []" using ld h by auto
  have s: "TTLCache_set ?c2 k' v' t' =
     (None, ?c2\<lparr>cache := drop (Suc (length (cache ?c2)) - nat (max_size ?c2)) (cache ?c2) @ [stored (k', v', t')]\<rparr>)"
    using fresh by (intro set_fresh) (use assms(1) in \<open>simp add: TTLCache_init_def\<close>)
  have dr: "drop (Suc (length (cache ?c2)) - nat (max_size ?c2)) (cache ?c2) = tl (od_delete k ?d) @ [(k, ?e)]"
  proof -
    obtain p ps where pp: "od_delete k ?d = p # ps"
      using ne by (cases "od_delete k ?d") auto
    with ld have "nat m = Suc (Suc (length ps))" by simp
    with pp show ?thesis by (simp add: TTLCache_init_def)
  qed
  show ?thesis
    unfolding Let_def c1 snd_conv g fst_conv s dr
    using ld ne by (simp add: stored_def)
qed


text \<open>
  Claim C1, as amended.  Let the cache have capacity \<open>m \<ge> 1\<close>, start empty, and receive
  \<open>m + 1\<close> pairwise different keys through \<^verbatim>\<open>set\<close>.  Every call succeeds, exactly
  \<open>m\<close> entries remain, and the entry that is gone is the one inserted first.  If
  \<open>m \<ge> 2\<close> and a \<^verbatim>\<open>get\<close> hits one of the first \<open>m\<close> keys before the last insertion,
  that key stays (it is now second to last in the order) and the entry that is gone is
  the oldest of the other ones: eviction follows the order of access, not of insertion.
\<close>

theorem lru_eviction_by_access_order:
  fixes old :: "(string \<times> 'v \<times> real) list"
  assumes "1 \<le> m" and "length old = nat m"
    and "distinct (map fst (old @ [(k', v', t')]))"
  shows
   "set_all (TTLCache_init m ttl) (old @ [(k', v', t')]) =
       (None, (TTLCache_init m ttl)\<lparr>cache := map stored (tl old) @ [stored (k', v', t')]\<rparr>)
    \<and> length (map stored (tl old) @ [stored (k', v', t')]) = nat m
    \<and> (2 \<le> m \<and> (k, v, t) \<in> set old \<and> now - t \<le> real_of_int ttl \<longrightarrow>
       (let c1 = snd (set_all (TTLCache_init m ttl) old);
            c2 = snd (TTLCache_get c1 k now);
            c3 = snd (TTLCache_set c2 k' v' t')
        in fst (TTLCache_get c1 k now) = Some v
           \<and> fst (TTLCache_set c2 k' v' t') = None
           \<and> cache c3 = tl (od_delete k (map stored old)) @ [stored (k, v, t), stored (k', v', t')]
           \<and> length (cache c3) = nat m))"
proof (intro conjI impI)
  obtain x xs where ox: "old = x # xs"
    using assms(1,2) by (cases old) auto
  have "set_all (TTLCache_init m ttl) (old @ [(k', v', t')]) =
     (None, (TTLCache_init m ttl)\<lparr>cache :=
        drop (length (old @ [(k', v', t')]) - nat m) (map stored (old @ [(k', v', t')]))\<rparr>)"
    using assms(1,3) by (rule set_all_init)
  then show "set_all (TTLCache_init m ttl) (old @ [(k', v', t')]) =
       (None, (TTLCache_init m ttl)\<lparr>cache := map stored (tl old) @ [stored (k', v', t')]\<rparr>)"
    using assms(2) ox by simp
  show "length (map stored (tl old) @ [stored (k', v', t')]) = nat m"
    using assms(2) ox by simp
next
  assume h: "2 \<le> m \<and> (k, v, t) \<in> set old \<and> now - t \<le> real_of_int ttl"
  have d: "distinct (map fst old)" and f: "k' \<notin> fst ` set old"
    using assms(3) by auto
  show "let c1 = snd (set_all (TTLCache_init m ttl) old);
            c2 = snd (TTLCache_get c1 k now);
            c3 = snd (TTLCache_set c2 k' v' t')
        in fst (TTLCache_get c1 k now) = Some v
           \<and> fst (TTLCache_set c2 k' v' t') = None
           \<and> cache c3 = tl (od_delete k (map stored old)) @ [stored (k, v, t), stored (k', v', t')]
           \<and> length (cache c3) = nat m"
    using assms(1) d
  proof (rule get_then_set_full)
    show "2 \<le> m \<and> length old = nat m \<and> (k, v, t) \<in> set old \<and> now - t \<le> real_of_int ttl
         \<and> k' \<notin> fst ` set old"
      using h assms(2) f by simp
  qed
qed

text \<open>The theorem at capacity 2 with keys \<open>a\<close>, \<open>b\<close>, \<open>c\<close>: touching \<open>a\<close> saves it, \<open>b\<close> goes.\<close>

theorem lru_eviction_by_access_order_witness:
  "(1::int) \<le> 2 \<and> length [(''a'', 10::nat, 0::real), (''b'', 20, 1)] = nat 2
   \<and> distinct (map fst ([(''a'', 10::nat, 0::real), (''b'', 20, 1)] @ [(''c'', 30, 3)]))
   \<and> (2::int) \<le> 2 \<and> (''a'', 10::nat, 0::real) \<in> set [(''a'', 10, 0), (''b'', 20, 1)]
   \<and> (2::real) - 0 \<le> real_of_int 60
   \<and> set_all (TTLCache_init 2 60) ([(''a'', 10::nat, 0::real), (''b'', 20, 1)] @ [(''c'', 30, 3)]) =
       (None, (TTLCache_init 2 60)\<lparr>cache := [stored (''b'', 20, 1), stored (''c'', 30, 3)]\<rparr>)
   \<and> cache (snd (TTLCache_set (snd (TTLCache_get
         (snd (set_all (TTLCache_init 2 60) [(''a'', 10::nat, 0::real), (''b'', 20, 1)])) ''a'' 2)) ''c'' 30 3))
       = [stored (''a'', 10, 0), stored (''c'', 30, 3)]"
proof -
  have a: "(1::int) \<le> 2" by simp
  have b: "length [(''a'', 10::nat, 0::real), (''b'', 20, 1)] = nat 2" by simp
  have c: "distinct (map fst ([(''a'', 10::nat, 0::real), (''b'', 20, 1)] @ [(''c'', 30, 3)]))" by simp
  have d: "(2::int) \<le> 2 \<and> (''a'', 10::nat, 0::real) \<in> set [(''a'', 10, 0), (''b'', 20, 1)]
     \<and> (2::real) - 0 \<le> real_of_int 60" by simp
  show ?thesis
    using lru_eviction_by_access_order[OF a b c, where k="''a''" and v=10 and t=0 and now=2 and ttl=60] a b c d
    by (simp add: Let_def od_delete_def stored_def)
qed

text \<open>
  Claim C1 as stated fails at the small capacities.  At capacity 0 the first \<^verbatim>\<open>set\<close>
  raises \<^verbatim>\<open>KeyError\<close> (the loop pops from an empty dictionary).  At capacity 1 a key
  that a \<^verbatim>\<open>get\<close> has just hit is evicted by the next insertion all the same.
\<close>

theorem lru_eviction_counterexample:
  "TTLCache_set (TTLCache_init 0 60) ''a'' (10::nat) 0 = (Some KeyError, TTLCache_init 0 60)
   \<and> TTLCache_get (snd (TTLCache_set (TTLCache_init 1 60) ''a'' (10::nat) 0)) ''a'' 1
       = (Some 10, (TTLCache_init 1 60)\<lparr>cache := [stored (''a'', 10, 0)], hits := 1\<rparr>)
   \<and> map fst (cache (snd (TTLCache_set (snd (TTLCache_get
        (snd (TTLCache_set (TTLCache_init 1 60) ''a'' (10::nat) 0)) ''a'' 1)) ''b'' 20 2))) = [''b'']"
  by (simp add: TTLCache_set_def TTLCache_get_def TTLCache_init_def expired_def
      od_move_to_end_def od_delete_def stored_def)

lemma set_stores:
  assumes "TTLCache_set c key v T = (None, c1)"
  shows "map_of (cache c1) key = Some \<lparr>entry_value = v, timestamp = T\<rparr>
         \<and> ttl_seconds c1 = ttl_seconds c \<and> hits c1 = hits c \<and> misses c1 = misses c"
  using assms
  by (auto simp: TTLCache_set_def map_of_od_setitem split: prod.splits option.splits)

text \<open>
  Claim C6.  Let \<^verbatim>\<open>set(key, v)\<close> have stored the key at clock reading \<open>T\<close>.  A \<^verbatim>\<open>get(key)\<close>
  at any time before \<open>T + ttl\<close> returns \<open>v\<close>, counts a hit and moves the entry to the
  most recently used end.  A \<^verbatim>\<open>get(key)\<close> at any time after \<open>T + ttl\<close> returns nothing,
  counts a miss and removes the entry, so that the key is absent afterwards.
\<close>

theorem ttl_hit_then_expiry:
  assumes "TTLCache_set c key v T = (None, c1)"
  shows "(now < T + real_of_int (ttl_seconds c) \<longrightarrow>
            TTLCache_get c1 key now =
              (Some v, c1\<lparr>cache := od_delete key (cache c1) @ [(key, \<lparr>entry_value = v, timestamp = T\<rparr>)],
                          hits := hits c1 + 1\<rparr>))
       \<and> (now > T + real_of_int (ttl_seconds c) \<longrightarrow>
            TTLCache_get c1 key now =
              (None, c1\<lparr>cache := od_delete key (cache c1), misses := misses c1 + 1\<rparr>)
            \<and> map_of (od_delete key (cache c1)) key = None)"
proof -
  have look: "map_of (cache c1) key = Some \<lparr>entry_value = v, timestamp = T\<rparr>"
    and ttl: "ttl_seconds c1 = ttl_seconds c"
    using set_stores[OF assms] by simp_all
  show ?thesis
    using look ttl
    by (auto simp: TTLCache_get_def expired_def od_move_to_end_def map_of_od_delete)
qed

text \<open>
  The theorem for a value stored at time 100 with a TTL of 60 seconds, read at 159 and at 161.
\<close>

theorem ttl_hit_then_expiry_witness:
  "TTLCache_set (TTLCache_init 2 60) ''k'' (7::nat) 100
     = (None, (TTLCache_init 2 60)\<lparr>cache := [(''k'', \<lparr>entry_value = 7, timestamp = 100\<rparr>)]\<rparr>)
   \<and> (159::real) < 100 + real_of_int (ttl_seconds (TTLCache_init 2 60 :: nat TTLCache))
   \<and> fst (TTLCache_get ((TTLCache_init 2 60)\<lparr>cache := [(''k'', \<lparr>entry_value = 7::nat, timestamp = 100\<rparr>)]\<rparr>) ''k'' 159) = Some 7
   \<and> (161::real) > 100 + real_of_int (ttl_seconds (TTLCache_init 2 60 :: nat TTLCache))
   \<and> TTLCache_get ((TTLCache_init 2 60)\<lparr>cache := [(''k'', \<lparr>entry_value = 7::nat, timestamp = 100\<rparr>)]\<rparr>) ''k'' 161
       = (None, (TTLCache_init 2 60)\<lparr>cache := [], misses := 1\<rparr>)"
proof -
  have s: "TTLCache_set (TTLCache_init 2 60) ''k'' (7::nat) 100
     = (None, (TTLCache_init 2 60)\<lparr>cache := [(''k'', \<lparr>entry_value = 7, timestamp = 100\<rparr>)]\<rparr>)"
    by (simp add: TTLCache_set_def TTLCache_init_def)
  have a: "(159::real) < 100 + real_of_int (ttl_seconds (TTLCache_init 2 60 :: nat TTLCache))"
    by (simp add: TTLCache_init_def)
  have b: "(161::real) > 100 + real_of_int (ttl_seconds (TTLCache_init 2 60 :: nat TTLCache))"
    by (simp add: TTLCache_init_def)
  show ?thesis
    using ttl_hit_then_expiry[OF s, of 159] ttl_hit_then_expiry[OF s, of 161] s a b
    by (simp add: od_delete_def TTLCache_init_def)
qed



text \<open>
  Claim C9, as amended.  Let the capacity be \<open>m \<ge> 1\<close>.  After any number \<open>n\<close> of steps of
  any sequence of \<^verbatim>\<open>get\<close>, \<^verbatim>\<open>set\<close>, \<^verbatim>\<open>invalidate\<close>, \<^verbatim>\<open>clear\<close> and \<^verbatim>\<open>cleanup_expired\<close>
  calls on a cache that starts empty, no call has raised, the keys are pairwise
  different and there are at most \<open>m\<close> entries.
\<close>

theorem size_bound_all_sequences:
  assumes "1 \<le> m"
  shows "fst (run_cache_ops (TTLCache_init m ttl) (take n ops)) = None
       \<and> int (length (cache (snd (run_cache_ops (TTLCache_init m ttl) (take n ops))))) \<le> m
       \<and> distinct (map fst (cache (snd (run_cache_ops (TTLCache_init m ttl) (take n ops)))))"
proof -
  have i: "cache_inv (TTLCache_init m ttl)" and ms: "1 \<le> max_size (TTLCache_init m ttl)"
    using assms by (simp_all add: cache_inv_def TTLCache_init_def)
  have m: "max_size (TTLCache_init m ttl :: 'a TTLCache) = m" by (simp add: TTLCache_init_def)
  let ?r = "run_cache_ops (TTLCache_init m ttl :: 'a TTLCache) (take n ops)"
  have r: "fst ?r = None" "cache_inv (snd ?r)" "max_size (snd ?r) = max_size (TTLCache_init m ttl :: 'a TTLCache)"
    using run_cache_ops_inv[OF ms i, of "take n ops"] by blast+
  from r(2) have "int (length (cache (snd ?r))) \<le> max_size (snd ?r)" "distinct (map fst (cache (snd ?r)))"
    by (simp_all add: cache_inv_def)
  with r(1,3) m show ?thesis by metis
qed

text \<open>
  The theorem at capacity 1 on a sequence that uses every operation.
\<close>

theorem size_bound_all_sequences_witness:
  "(1::int) \<le> 1
   \<and> run_cache_ops (TTLCache_init 1 60)
        (take 5 [Set ''a'' (1::nat) 0, Get ''a'' 1, Set ''b'' 2 2, Invalidate ''a'', CleanupExpired 100, Clear])
      = (None, (TTLCache_init 1 60)\<lparr>cache := [], hits := 1\<rparr>)"
proof -
  have a: "(1::int) \<le> 1" by simp
  show ?thesis
    using size_bound_all_sequences[OF a, of 60 5
        "[Set ''a'' (1::nat) 0, Get ''a'' 1, Set ''b'' 2 2, Invalidate ''a'', CleanupExpired 100, Clear]"]
    by (simp add: TTLCache_set_def TTLCache_get_def TTLCache_invalidate_def TTLCache_cleanup_expired_def
        TTLCache_init_def expired_def od_move_to_end_def od_delete_def)
qed

text \<open>
  Claim C9 as stated fails when the capacity is not positive: at capacity 0 the first
  \<^verbatim>\<open>set\<close> raises \<^verbatim>\<open>KeyError\<close>, and at a negative capacity the empty cache already holds
  more entries than the capacity.
\<close>

theorem size_bound_counterexample:
  "fst (run_cache_ops (TTLCache_init 0 60) [Set ''a'' (1::nat) 0]) = Some KeyError
   \<and> \<not> int (length (cache (snd (run_cache_ops (TTLCache_init (- 1) 60 :: nat TTLCache) [])))) \<le> - 1"
  by (simp add: TTLCache_set_def TTLCache_init_def)

section \<open>Properties of RateLimiter\<close>




text \<open>
  Claim C4 against the source.  \<^verbatim>\<open>get_retry_after\<close> never calls \<^verbatim>\<open>_refill\<close>: it reads the
  token count left by the last refill.  With one token at rate 1/2, a check at time 0
  empties the bucket; one second later half a token has accrued and the described value
  is \<open>(1 - 1/2) / (1/2) = 1\<close>, but the function returns \<open>(1 - 0) / (1/2) = 2\<close> and leaves
  the bucket as it was.
\<close>

theorem get_retry_after_without_refill:
  "RateLimiter_check (RateLimiter_init 1 (1/2) 60) ''c'' 1 0 0
     = (True, RateLimiter_init 1 (1/2) 60\<lparr>buckets := [''c'' \<mapsto> \<lparr>tokens = 0, last_refill = 0\<rparr>]\<rparr>)
   \<and> RateLimiter_get_retry_after
        (RateLimiter_init 1 (1/2) 60\<lparr>buckets := [''c'' \<mapsto> \<lparr>tokens = 0, last_refill = 0\<rparr>]\<rparr>) ''c'' 1 1
     = (Inr 2, RateLimiter_init 1 (1/2) 60\<lparr>buckets := [''c'' \<mapsto> \<lparr>tokens = 0, last_refill = 0\<rparr>]\<rparr>)
   \<and> spec_retry_after (RateLimiter_init 1 (1/2) 60) \<lparr>tokens = 0, last_refill = 0\<rparr> 1 1 = 1"
  by (simp add: RateLimiter_check_def RateLimiter_get_retry_after_def spec_retry_after_def
      get_bucket_def RateLimiter_refill_def RateLimiter_init_def Let_def)

text \<open>
  Claim C5 against the source.  With \<^verbatim>\<open>max_tokens=1, refill_rate=0\<close> the first check
  succeeds, the second fails, and \<^verbatim>\<open>get_retry_after\<close> then divides by the zero rate:
  it raises \<^verbatim>\<open>ZeroDivisionError\<close> instead of returning a value.
\<close>

theorem get_retry_after_zero_rate:
  "RateLimiter_check (RateLimiter_init 1 0 60) ''c'' 1 0 0
     = (True, RateLimiter_init 1 0 60\<lparr>buckets := [''c'' \<mapsto> \<lparr>tokens = 0, last_refill = 0\<rparr>]\<rparr>)
   \<and> RateLimiter_check
        (RateLimiter_init 1 0 60\<lparr>buckets := [''c'' \<mapsto> \<lparr>tokens = 0, last_refill = 0\<rparr>]\<rparr>) ''c'' 1 0 0
     = (False, RateLimiter_init 1 0 60\<lparr>buckets := [''c'' \<mapsto> \<lparr>tokens = 0, last_refill = 0\<rparr>]\<rparr>)
   \<and> RateLimiter_get_retry_after
        (RateLimiter_init 1 0 60\<lparr>buckets := [''c'' \<mapsto> \<lparr>tokens = 0, last_refill = 0\<rparr>]\<rparr>) ''c'' 1 0
     = (Inl ZeroDivisionError,
        RateLimiter_init 1 0 60\<lparr>buckets := [''c'' \<mapsto> \<lparr>tokens = 0, last_refill = 0\<rparr>]\<rparr>)"
  by (simp add: RateLimiter_check_def RateLimiter_get_retry_after_def
      get_bucket_def RateLimiter_refill_def RateLimiter_init_def Let_def)

text \<open>
  The same for every limiter with a zero rate and every bucket short of the cost.
\<close>

lemma get_retry_after_zero_rate_general:
  assumes "refill_rate rl = 0" and "buckets rl client_key = Some b" and "tokens b < real_of_int cost"
  shows "RateLimiter_get_retry_after rl client_key cost t0 = (Inl ZeroDivisionError, rl)"
  using assms by (simp add: RateLimiter_get_retry_after_def get_bucket_def Let_def)

text \<open>
  What \<^verbatim>\<open>get_retry_after\<close> computes for a non-zero rate: no clock reading enters it.
\<close>

lemma get_retry_after_reads_stored_tokens:
  assumes "buckets rl client_key = Some b" "refill_rate rl \<noteq> 0"
  shows "RateLimiter_get_retry_after rl client_key cost t0 =
     (Inr (if real_of_int cost - tokens b \<le> 0 then 0 else (real_of_int cost - tokens b) / refill_rate rl), rl)"
  using assms by (simp add: RateLimiter_get_retry_after_def get_bucket_def Let_def)

section \<open>Properties of InferenceQueue\<close>



lemma process_item_already_done:
  assumes "future_done lp (future item)"
    and "coroutine_factory item () = Returns v \<or> coroutine_factory item () = Raises e"
  shows "process_item lp q item = (None, lp, q\<lparr>total_errors := total_errors q + 1\<rparr>)"
  using assms by (auto simp: process_item_def set_result_def Let_def)

lemma process_item_base_exception:
  assumes "coroutine_factory item () = RaisesBase e"
  shows "process_item lp q item = (Some e, lp, q)"
  using assms by (simp add: process_item_def Let_def)







lemma init_maxsize: "maxsize (queue (InferenceQueue_init mc mq)) = max_queue_size (InferenceQueue_init mc mq)"
  by (simp add: InferenceQueue_init_def)

lemma submit_maxsize:
  assumes "maxsize (queue q) = max_queue_size q"
  shows "maxsize (queue (snd (snd (InferenceQueue_submit lp q task_id cf))))
       = max_queue_size (snd (snd (InferenceQueue_submit lp q task_id cf)))"
  using assms
  by (simp add: InferenceQueue_submit_def put_nowait_def create_future_def Let_def)

text \<open>
  Claim C2, as amended.  Let \<^verbatim>\<open>max_queue_size\<close> be at least 1 (it is also the \<^verbatim>\<open>maxsize\<close>
  of the internal queue, as the constructor sets it).  If the internal queue holds
  \<^verbatim>\<open>max_queue_size\<close> pending items, \<^verbatim>\<open>submit\<close> raises \<^verbatim>\<open>QueueFull\<close> before it reaches its
  \<^verbatim>\<open>await\<close>, and the queue with its pending items and counters is unchanged.  The only
  trace is the future that \<^verbatim>\<open>submit\<close> created before trying to enqueue.
\<close>

theorem submit_rejects_when_full:
  assumes "1 \<le> max_queue_size q"
    and "maxsize (queue q) = max_queue_size q"
    and "int (qsize (queue q)) = max_queue_size q"
  shows "InferenceQueue_submit lp q task_id cf = (Inl QueueFull, snd (create_future lp), q)"
  using assms
  by (simp add: InferenceQueue_submit_def put_nowait_def full_def create_future_def Let_def)

text \<open>
  The theorem for a queue of capacity 2 that holds two items.
\<close>

theorem submit_rejects_when_full_witness:
  "(1::int) \<le> max_queue_size ((InferenceQueue_init 1 2)\<lparr>queue := \<lparr>maxsize = 2, items =
        [\<lparr>item_id = ''a'', coroutine_factory = returning (1::nat), future = 0\<rparr>,
         \<lparr>item_id = ''b'', coroutine_factory = returning 2, future = 1\<rparr>]\<rparr>\<rparr>)
   \<and> InferenceQueue_submit (new_event_loop\<lparr>next_future := 2\<rparr>)
        ((InferenceQueue_init 1 2)\<lparr>queue := \<lparr>maxsize = 2, items =
          [\<lparr>item_id = ''a'', coroutine_factory = returning (1::nat), future = 0\<rparr>,
           \<lparr>item_id = ''b'', coroutine_factory = returning 2, future = 1\<rparr>]\<rparr>\<rparr>)
        ''c'' (returning 3)
     = (Inl QueueFull, snd (create_future (new_event_loop\<lparr>next_future := 2\<rparr>)),
        (InferenceQueue_init 1 2)\<lparr>queue := \<lparr>maxsize = 2, items =
          [\<lparr>item_id = ''a'', coroutine_factory = returning (1::nat), future = 0\<rparr>,
           \<lparr>item_id = ''b'', coroutine_factory = returning 2, future = 1\<rparr>]\<rparr>\<rparr>)"
proof -
  let ?q = "(InferenceQueue_init 1 2)\<lparr>queue := \<lparr>maxsize = 2, items =
        [\<lparr>item_id = ''a'', coroutine_factory = returning (1::nat), future = 0\<rparr>,
         \<lparr>item_id = ''b'', coroutine_factory = returning 2, future = 1\<rparr>]\<rparr>\<rparr>"
  have a: "1 \<le> max_queue_size ?q" by (simp add: InferenceQueue_init_def)
  have b: "maxsize (queue ?q) = max_queue_size ?q" by (simp add: InferenceQueue_init_def)
  have c: "int (qsize (queue ?q)) = max_queue_size ?q" by (simp add: InferenceQueue_init_def qsize_def)
  show ?thesis
    using submit_rejects_when_full[OF a b c, of "new_event_loop\<lparr>next_future := 2\<rparr>" "''c''" "returning 3"] a
    by simp
qed

text \<open>
  Claim C2 as stated fails for \<^verbatim>\<open>max_queue_size = 0\<close>: \<^verbatim>\<open>asyncio.Queue(maxsize=0)\<close> is
  unbounded, so a queue that holds \<^verbatim>\<open>max_queue_size = 0\<close> items accepts the submission.
\<close>

theorem submit_rejects_counterexample:
  "int (qsize (queue (InferenceQueue_init 1 0 :: nat InferenceQueue)))
      = max_queue_size (InferenceQueue_init 1 0 :: nat InferenceQueue)
   \<and> fst (InferenceQueue_submit new_event_loop (InferenceQueue_init 1 0) ''t'' (returning (1::nat))) = Inr 0
   \<and> map item_id (items (queue (snd (snd
         (InferenceQueue_submit new_event_loop (InferenceQueue_init 1 0) ''t'' (returning (1::nat)))))))
      = [''t'']"
  by (simp add: InferenceQueue_submit_def put_nowait_def full_def create_future_def Let_def
      InferenceQueue_init_def qsize_def new_event_loop_def)

text \<open>
  Claim C8.  Let a worker take an item whose future is already done.  On the success
  path \<^verbatim>\<open>set_result\<close> raises \<^verbatim>\<open>InvalidStateError\<close>, which the \<^verbatim>\<open>except Exception\<close> clause of
  the same \<^verbatim>\<open>try\<close> catches; on the error path the test \<^verbatim>\<open>not item.future.done()\<close> skips
  \<^verbatim>\<open>set_exception\<close>.  On both paths the futures are exactly as before, so the first
  resolution stands, no exception leaves the loop body, and the worker stays in its
  loop.  (Both paths count the item in \<^verbatim>\<open>total_errors\<close>.)
\<close>

theorem second_resolution_is_noop:
  assumes "running q" and "items (queue q) = item # rest"
    and "future_done lp (future item)"
    and "coroutine_factory item () = Returns v \<or> coroutine_factory item () = Raises e"
  shows "worker_iteration lp q =
           (None, lp, q\<lparr>queue := (queue q)\<lparr>items := rest\<rparr>, total_errors := total_errors q + 1\<rparr>)
       \<and> set_result lp (future item) v = (Some InvalidStateError, lp)
       \<and> set_exception lp (future item) e = (Some InvalidStateError, lp)"
  using assms(1-3) process_item_already_done[OF assms(3,4)]
  by (simp add: worker_iteration_def set_result_def set_exception_def)

text \<open>
  The theorem for a cancelled future, once with work that returns and once with work
  that raises.
\<close>

theorem second_resolution_is_noop_witness:
  "running ((InferenceQueue_start (InferenceQueue_init 1 5))\<lparr>queue := \<lparr>maxsize = 5, items =
        [\<lparr>item_id = ''a'', coroutine_factory = returning (1::nat), future = 0\<rparr>]\<rparr>\<rparr>)
   \<and> future_done (new_event_loop\<lparr>futures := (\<lambda>a. Cancelled), next_future := 1\<rparr> :: nat event_loop) 0
   \<and> fst (worker_iteration (new_event_loop\<lparr>futures := (\<lambda>a. Cancelled), next_future := 1\<rparr>)
        ((InferenceQueue_start (InferenceQueue_init 1 5))\<lparr>queue := \<lparr>maxsize = 5, items =
          [\<lparr>item_id = ''a'', coroutine_factory = returning (1::nat), future = 0\<rparr>]\<rparr>\<rparr>)) = None
   \<and> fst (snd (worker_iteration (new_event_loop\<lparr>futures := (\<lambda>a. Cancelled), next_future := 1\<rparr>)
        ((InferenceQueue_start (InferenceQueue_init 1 5))\<lparr>queue := \<lparr>maxsize = 5, items =
          [\<lparr>item_id = ''a'', coroutine_factory = returning (1::nat), future = 0\<rparr>]\<rparr>\<rparr>)))
       = new_event_loop\<lparr>futures := (\<lambda>a. Cancelled), next_future := 1\<rparr>
   \<and> fst (worker_iteration (new_event_loop\<lparr>futures := (\<lambda>a. Cancelled), next_future := 1\<rparr>)
        ((InferenceQueue_start (InferenceQueue_init 1 5))\<lparr>queue := \<lparr>maxsize = 5, items =
          [\<lparr>item_id = ''b'', coroutine_factory = raising (WorkError ''boom''), future = 0\<rparr>]\<rparr>\<rparr>
          :: nat InferenceQueue)) = None"
proof -
  let ?lp = "new_event_loop\<lparr>futures := (\<lambda>a. Cancelled), next_future := 1\<rparr> :: nat event_loop"
  let ?a = "\<lparr>item_id = ''a'', coroutine_factory = returning (1::nat), future = 0\<rparr>"
  let ?b = "\<lparr>item_id = ''b'', coroutine_factory = raising (WorkError ''boom'') :: unit \<Rightarrow> nat outcome, future = 0\<rparr>"
  let ?qa = "(InferenceQueue_start (InferenceQueue_init 1 5))\<lparr>queue := \<lparr>maxsize = 5, items = [?a]\<rparr>\<rparr>"
  let ?qb = "(InferenceQueue_start (InferenceQueue_init 1 5))\<lparr>queue := \<lparr>maxsize = 5, items = [?b]\<rparr>\<rparr>"
  have ra: "running ?qa" and rb: "running ?qb"
    by (simp_all add: InferenceQueue_start_def InferenceQueue_init_def)
  have ia: "items (queue ?qa) = ?a # []" and ib: "items (queue ?qb) = ?b # []" by simp_all
  have da: "future_done ?lp (future ?a)" and db: "future_done ?lp (future ?b)"
    by (simp_all add: future_done_def)
  have oa: "coroutine_factory ?a () = Returns 1 \<or> coroutine_factory ?a () = Raises KeyError"
    by (simp add: returning_def)
  have ob: "coroutine_factory ?b () = Returns 1 \<or> coroutine_factory ?b () = Raises (WorkError ''boom'')"
    by (simp add: raising_def)
  show ?thesis
    using second_resolution_is_noop[OF ra ia da oa] second_resolution_is_noop[OF rb ib db ob] ra da
    by simp
qed




end
